theory Spec2Isabelle
  imports Main "HOL-Library.Word" "HOL-Library.Sublist"
begin

section \<open>The task store of useTasks.ts\<close>

text \<open>
  The store is the module-level state of the composable: the reactive array \<open>tasks\<close> and
  the counter \<open>nextId\<close>. Every function returned by \<open>useTasks()\<close> closes over this one
  state, so each is modelled as a function from the state before the call to the state
  after it.

  Modelling choices:
  \<^item> a JavaScript string is its sequence of UTF-16 code units (\<open>16 word list\<close>);
  \<^item> \<open>String.prototype.trim\<close> is the ECMAScript builtin: it strips WhiteSpace and
    LineTerminator code points from both ends;
  \<^item> a \<open>Date\<close> is its time value, an integer count of milliseconds;
  \<^item> every \<open>new Date()\<close> in the source is a reading of the clock; the readings are
    parameters of the operation that takes them, in the order the source evaluates them;
  \<^item> \<open>number\<close> values used as ids are integers. The counter starts at 1 and is only
    ever incremented by one, and the model treats it as an unbounded integer (a double
    is exact up to \<open>2^53\<close>, far beyond any counter this store can reach);
  \<^item> the \<open>Partial<Pick<Task, ...>>\<close> argument of \<open>updateTask\<close> is a record of optional
    fields: \<open>None\<close> is an absent key, \<open>Some v\<close> a key carrying a value of the field's
    type.
\<close>

subsection \<open>Strings and trimming\<close>

type_synonym jsstring = "16 word list"

type_synonym date = int

definition isWhiteSpace :: "16 word \<Rightarrow> bool" where
  "isWhiteSpace c =
     (c = 0x0009 \<or> c = 0x000A \<or> c = 0x000B \<or> c = 0x000C \<or> c = 0x000D \<or>
      c = 0x0020 \<or> c = 0x00A0 \<or> c = 0x1680 \<or>
      (0x2000 \<le> c \<and> c \<le> 0x200A) \<or>
      c = 0x2028 \<or> c = 0x2029 \<or> c = 0x202F \<or> c = 0x205F \<or> c = 0x3000 \<or>
      c = 0xFEFF)"

definition trim :: "jsstring \<Rightarrow> jsstring" where
  "trim s = rev (dropWhile isWhiteSpace (rev (dropWhile isWhiteSpace s)))"

subsection \<open>The data model\<close>

record Task =
  task_id :: int
  title :: jsstring
  description :: jsstring
  completed :: bool
  createdAt :: date
  updatedAt :: date

record Store =
  tasks :: "Task list"
  nextId :: int

text \<open>The state of a freshly loaded module: \<open>ref<Task[]>([])\<close> and \<open>let nextId = 1\<close>.\<close>

definition initial :: Store where
  "initial = \<lparr>tasks = [], nextId = 1\<rparr>"

text \<open>The argument of \<open>updateTask\<close>: any subset of title, description and completed.\<close>

record Updates =
  new_title :: "jsstring option"
  new_description :: "jsstring option"
  new_completed :: "bool option"

subsection \<open>Array helpers\<close>

text \<open>\<open>Array.prototype.findIndex\<close>: the first index whose element satisfies the predicate;
  \<open>None\<close> stands for the result \<open>-1\<close>.\<close>

fun findIndex :: "('a \<Rightarrow> bool) \<Rightarrow> 'a list \<Rightarrow> nat option" where
  "findIndex p [] = None"
| "findIndex p (x # xs) = (if p x then Some 0 else map_option Suc (findIndex p xs))"

text \<open>\<open>Array.prototype.splice(i, 1)\<close> on an index inside the array.\<close>

definition splice1 :: "nat \<Rightarrow> 'a list \<Rightarrow> 'a list" where
  "splice1 i xs = take i xs @ drop (Suc i) xs"

subsection \<open>Derived views\<close>

definition completedTasks :: "Store \<Rightarrow> Task list" where
  "completedTasks s = filter (\<lambda>task. completed task) (tasks s)"

definition pendingTasks :: "Store \<Rightarrow> Task list" where
  "pendingTasks s = filter (\<lambda>task. \<not> completed task) (tasks s)"

definition totalTasks :: "Store \<Rightarrow> nat" where
  "totalTasks s = length (tasks s)"

subsection \<open>Operations\<close>

text \<open>\<open>addTask\<close>: \<open>now1\<close> is the reading stored in \<open>createdAt\<close>, \<open>now2\<close> the one stored in
  \<open>updatedAt\<close>; the source evaluates \<open>new Date()\<close> once for each field. The second
  argument is optional and defaults to the empty string.\<close>

definition addTask :: "date \<Rightarrow> date \<Rightarrow> jsstring \<Rightarrow> jsstring option \<Rightarrow> Store \<Rightarrow> Store" where
  "addTask now1 now2 title_arg description_arg s =
     (let description_str = (case description_arg of None \<Rightarrow> [] | Some d \<Rightarrow> d) in
      if trim title_arg = [] then s
      else
        let newTask = \<lparr>task_id = nextId s,
                        title = trim title_arg,
                        description = trim description_str,
                        completed = False,
                        createdAt = now1,
                        updatedAt = now2\<rparr>
        in \<lparr>tasks = tasks s @ [newTask], nextId = nextId s + 1\<rparr>)"

text \<open>The object spread \<open>{...existingTask, ...updates, updatedAt: new Date()}\<close>.\<close>

definition merge :: "date \<Rightarrow> Task \<Rightarrow> Updates \<Rightarrow> Task" where
  "merge now existingTask updates =
     \<lparr>task_id = task_id existingTask,
      title = (case new_title updates of None \<Rightarrow> title existingTask | Some v \<Rightarrow> v),
      description =
        (case new_description updates of None \<Rightarrow> description existingTask | Some v \<Rightarrow> v),
      completed =
        (case new_completed updates of None \<Rightarrow> completed existingTask | Some v \<Rightarrow> v),
      createdAt = createdAt existingTask,
      updatedAt = now\<rparr>"

definition updateTask :: "date \<Rightarrow> int \<Rightarrow> Updates \<Rightarrow> Store \<Rightarrow> Store" where
  "updateTask now i updates s =
     (case findIndex (\<lambda>task. task_id task = i) (tasks s) of
        None \<Rightarrow> s
      | Some taskIndex \<Rightarrow>
          s\<lparr>tasks := (tasks s)[taskIndex := merge now (tasks s ! taskIndex) updates]\<rparr>)"

definition deleteTask :: "int \<Rightarrow> Store \<Rightarrow> Store" where
  "deleteTask i s =
     (case findIndex (\<lambda>task. task_id task = i) (tasks s) of
        None \<Rightarrow> s
      | Some taskIndex \<Rightarrow> s\<lparr>tasks := splice1 taskIndex (tasks s)\<rparr>)"

definition toggleTaskComplete :: "date \<Rightarrow> int \<Rightarrow> Store \<Rightarrow> Store" where
  "toggleTaskComplete now i s =
     (case find (\<lambda>task. task_id task = i) (tasks s) of
        None \<Rightarrow> s
      | Some task \<Rightarrow>
          updateTask now i
            \<lparr>new_title = None, new_description = None,
             new_completed = Some (\<not> completed task)\<rparr> s)"

definition clearCompletedTasks :: "Store \<Rightarrow> Store" where
  "clearCompletedTasks s = s\<lparr>tasks := filter (\<lambda>task. \<not> completed task) (tasks s)\<rparr>"

definition clearAllTasks :: "Store \<Rightarrow> Store" where
  "clearAllTasks s = \<lparr>tasks = [], nextId = 1\<rparr>"

definition getTaskById :: "int \<Rightarrow> Store \<Rightarrow> Task option" where
  "getTaskById i s = find (\<lambda>task. task_id task = i) (tasks s)"

subsection \<open>Sequences of calls\<close>

text \<open>A call of one of the mutating functions the composable returns, together with the
  clock readings the call would take.\<close>

datatype Call =
    AddTask date date jsstring "jsstring option"
  | UpdateTask date int Updates
  | DeleteTask int
  | ToggleTaskComplete date int
  | ClearCompletedTasks
  | ClearAllTasks

fun exec :: "Call \<Rightarrow> Store \<Rightarrow> Store" where
  "exec (AddTask now1 now2 t d) s = addTask now1 now2 t d s"
| "exec (UpdateTask now i u) s = updateTask now i u s"
| "exec (DeleteTask i) s = deleteTask i s"
| "exec (ToggleTaskComplete now i) s = toggleTaskComplete now i s"
| "exec ClearCompletedTasks s = clearCompletedTasks s"
| "exec ClearAllTasks s = clearAllTasks s"

fun run :: "Store \<Rightarrow> Call list \<Rightarrow> Store" where
  "run s [] = s"
| "run s (c # cs) = run (exec c s) cs"

text \<open>The clock readings of a call, in the order they are taken, and the monotonic
  clock: over a sequence of calls no reading is smaller than an earlier one.\<close>

fun clock_reads :: "Call \<Rightarrow> date list" where
  "clock_reads (AddTask now1 now2 t d) = [now1, now2]"
| "clock_reads (UpdateTask now i u) = [now]"
| "clock_reads (ToggleTaskComplete now i) = [now]"
| "clock_reads (DeleteTask i) = []"
| "clock_reads ClearCompletedTasks = []"
| "clock_reads ClearAllTasks = []"

definition monotonic_clock :: "Call list \<Rightarrow> bool" where
  "monotonic_clock cs = sorted (concat (map clock_reads cs))"

text \<open>The ids handed out by a sequence of calls, in the order of the calls: the id of
  each record a call appends to the collection.\<close>

fun assigned_ids :: "Store \<Rightarrow> Call list \<Rightarrow> int list" where
  "assigned_ids s [] = []"
| "assigned_ids s (c # cs) =
     (case c of
        AddTask now1 now2 t d \<Rightarrow> map task_id (drop (length (tasks s)) (tasks (exec c s)))
      | _ \<Rightarrow> [])
     @ assigned_ids (exec c s) cs"

subsection \<open>The list filter of TaskList.vue\<close>

datatype FilterMode = All | Pending | Completed

definition filteredTasks :: "FilterMode \<Rightarrow> Task list \<Rightarrow> Task list" where
  "filteredTasks mode ts =
     (case mode of
        Pending \<Rightarrow> filter (\<lambda>task. \<not> completed task) ts
      | Completed \<Rightarrow> filter (\<lambda>task. completed task) ts
      | All \<Rightarrow> ts)"

subsection \<open>Invariants\<close>

text \<open>The ids of the collection increase strictly along it and lie below the counter.\<close>

definition ids_ordered :: "Store \<Rightarrow> bool" where
  "ids_ordered s \<longleftrightarrow>
     sorted_wrt (<) (map task_id (tasks s)) \<and> list_all (\<lambda>task. task_id task < nextId s) (tasks s)"

text \<open>No task was updated before it was created, nor after the clock reading \<open>hi\<close>.\<close>

definition times_ok :: "date \<Rightarrow> Store \<Rightarrow> bool" where
  "times_ok hi s \<longleftrightarrow>
     list_all (\<lambda>task. createdAt task \<le> updatedAt task \<and> updatedAt task \<le> hi) (tasks s)"

section \<open>Auxiliary facts\<close>

subsection \<open>Searching the collection\<close>

lemma findIndex_None_iff: "findIndex p xs = None \<longleftrightarrow> (\<forall>x\<in>set xs. \<not> p x)"
  by (induction xs) auto

lemma findIndex_Some:
  "findIndex p xs = Some k \<Longrightarrow> k < length xs \<and> p (xs ! k) \<and> (\<forall>j<k. \<not> p (xs ! j))"
proof (induction xs arbitrary: k)
  case Nil
  then show ?case by simp
next
  case (Cons x xs)
  show ?case
  proof (cases "p x")
    case True
    with Cons.prems show ?thesis by simp
  next
    case False
    with Cons.prems obtain k' where k': "findIndex p xs = Some k'" "k = Suc k'" by auto
    from Cons.IH[OF k'(1)] False k'(2) show ?thesis
      by (auto simp: less_Suc_eq_0_disj)
  qed
qed

lemma find_None_findIndex: "find p xs = None \<longleftrightarrow> findIndex p xs = None"
  by (induction xs) auto

lemma find_Some_findIndex: "find p xs = Some x \<Longrightarrow> \<exists>k. findIndex p xs = Some k \<and> xs ! k = x"
  by (induction xs) (auto split: if_splits)

lemma findIndex_absent:
  "i \<notin> task_id ` set ts \<Longrightarrow> findIndex (\<lambda>task. task_id task = i) ts = None"
  by (simp add: findIndex_None_iff) blast

subsection \<open>Trimming\<close>

lemma trim_decomp:
  "\<exists>pre suf. s = pre @ trim s @ suf \<and> list_all isWhiteSpace pre \<and> list_all isWhiteSpace suf"
proof -
  let ?m = "dropWhile isWhiteSpace s"
  have m: "rev ?m = takeWhile isWhiteSpace (rev ?m) @ dropWhile isWhiteSpace (rev ?m)"
    by simp
  have "?m = rev (rev ?m)" by simp
  also have "\<dots> = trim s @ rev (takeWhile isWhiteSpace (rev ?m))"
    by (subst m) (simp only: rev_append trim_def)
  finally have "s = takeWhile isWhiteSpace s @ trim s @ rev (takeWhile isWhiteSpace (rev ?m))"
    by (metis takeWhile_dropWhile_id)
  moreover have "list_all isWhiteSpace (takeWhile isWhiteSpace s)"
    by (simp add: list_all_iff) (meson set_takeWhileD)
  moreover have "list_all isWhiteSpace (rev (takeWhile isWhiteSpace (rev ?m)))"
    by (simp add: list_all_iff) (meson set_takeWhileD)
  ultimately show ?thesis by blast
qed

lemma takeWhile_dropWhile_Nil: "takeWhile P (dropWhile P xs) = []"
  by (induction xs) auto

lemma trim_no_trailing: "takeWhile isWhiteSpace (rev (trim s)) = []"
  by (simp add: trim_def takeWhile_dropWhile_Nil)

lemma dropWhile_rev_prefix:
  assumes "takeWhile P xs = []"
  shows "takeWhile P (rev (dropWhile P (rev xs))) = []"
proof (cases xs)
  case Nil
  then show ?thesis by simp
next
  case (Cons x xs')
  with assms have "\<not> P x" by (auto split: if_splits)
  then show ?thesis
    unfolding Cons by (simp add: dropWhile_append)
qed

lemma trim_no_leading: "takeWhile isWhiteSpace (trim s) = []"
  unfolding trim_def
  by (rule dropWhile_rev_prefix) (rule takeWhile_dropWhile_Nil)

lemma trim_Nil_iff: "trim s = [] \<longleftrightarrow> list_all isWhiteSpace s"
proof
  assume "trim s = []"
  then have all: "list_all isWhiteSpace (dropWhile isWhiteSpace s)"
    by (simp add: trim_def list_all_iff)
  have "takeWhile isWhiteSpace (dropWhile isWhiteSpace s) = dropWhile isWhiteSpace s"
    using all by (simp add: list_all_iff)
  then have "dropWhile isWhiteSpace s = []"
    by (simp add: takeWhile_dropWhile_Nil)
  then show "list_all isWhiteSpace s"
    by (simp add: list_all_iff)
next
  assume "list_all isWhiteSpace s"
  then have d: "dropWhile isWhiteSpace s = []"
    by (simp add: list_all_iff)
  show "trim s = []"
    by (simp only: trim_def d rev.simps dropWhile.simps)
qed

lemma trim_fixed: "trim (trim s) = trim s"
proof -
  have a: "dropWhile isWhiteSpace (trim s) = trim s"
    using trim_no_leading[of s] by (metis takeWhile_dropWhile_id append_Nil)
  have b: "dropWhile isWhiteSpace (rev (trim s)) = rev (trim s)"
    using trim_no_trailing[of s] by (metis takeWhile_dropWhile_id append_Nil)
  show ?thesis
    by (subst (1) trim_def) (simp only: a b rev_rev_ident)
qed

subsection \<open>Subsequences\<close>

lemma subseq_splice1: "subseq (splice1 k xs) xs"
proof (induction xs arbitrary: k)
  case Nil
  then show ?case by (simp add: splice1_def)
next
  case (Cons x xs)
  show ?case
  proof (cases k)
    case 0
    have "subseq xs (x # xs)" by (rule list_emb_Cons) simp
    with 0 show ?thesis by (simp add: splice1_def)
  next
    case (Suc j)
    with Cons.IH[of j] show ?thesis by (simp add: splice1_def)
  qed
qed

lemma sorted_wrt_subseq: "subseq xs ys \<Longrightarrow> sorted_wrt P ys \<Longrightarrow> sorted_wrt P xs"
proof (induction rule: list_emb.induct)
  case (list_emb_Nil ys)
  then show ?case by simp
next
  case (list_emb_Cons xs ys y)
  then show ?case by simp
next
  case (list_emb_Cons2 x y xs ys)
  then have "set xs \<subseteq> set ys" by (auto dest: list_emb_set)
  with list_emb_Cons2 show ?case by auto
qed

lemma list_all_subseq: "subseq xs ys \<Longrightarrow> list_all P ys \<Longrightarrow> list_all P xs"
  by (induction rule: list_emb.induct) auto

lemma findIndex_split:
  "findIndex p xs = Some k \<Longrightarrow>
     \<exists>ys x zs. xs = ys @ x # zs \<and> p x \<and> list_all (\<lambda>y. \<not> p y) ys \<and> splice1 k xs = ys @ zs"
proof (induction xs arbitrary: k)
  case Nil
  then show ?case by simp
next
  case (Cons a xs)
  show ?case
  proof (cases "p a")
    case True
    with Cons.prems have "k = 0" by simp
    with True have "a # xs = [] @ a # xs \<and> p a \<and> list_all (\<lambda>y. \<not> p y) []
        \<and> splice1 k (a # xs) = [] @ xs"
      by (simp add: splice1_def)
    then show ?thesis by blast
  next
    case False
    with Cons.prems obtain j where j: "findIndex p xs = Some j" "k = Suc j" by auto
    from Cons.IH[OF j(1)] obtain ys x zs where
      "xs = ys @ x # zs" "p x" "list_all (\<lambda>y. \<not> p y) ys" "splice1 j xs = ys @ zs"
      by blast
    with False j(2) have "a # xs = (a # ys) @ x # zs \<and> p x \<and> list_all (\<lambda>y. \<not> p y) (a # ys)
        \<and> splice1 k (a # xs) = (a # ys) @ zs"
      by (simp add: splice1_def)
    then show ?thesis by blast
  qed
qed

lemma findIndex_distinct:
  "distinct (map f xs) \<Longrightarrow> k < length xs \<Longrightarrow> findIndex (\<lambda>x. f x = f (xs ! k)) xs = Some k"
proof (induction xs arbitrary: k)
  case Nil
  then show ?case by simp
next
  case (Cons x xs)
  show ?case
  proof (cases k)
    case 0
    then show ?thesis by simp
  next
    case (Suc j)
    with Cons.prems have j: "j < length xs" and d: "distinct (map f xs)" and "f x \<notin> f ` set xs"
      by auto
    then have "f x \<noteq> f (xs ! j)" by (metis imageI nth_mem)
    with Cons.IH[OF d j] Suc show ?thesis by simp
  qed
qed

subsection \<open>What each operation does to the ids and the counter\<close>

lemma tasks_updateTask_ids:
  "map task_id (tasks (updateTask now i u s)) = map task_id (tasks s)"
proof (cases "findIndex (\<lambda>task. task_id task = i) (tasks s)")
  case None
  then show ?thesis by (simp add: updateTask_def)
next
  case (Some k)
  then have "k < length (tasks s)" by (simp add: findIndex_Some)
  then have "(map task_id (tasks s))[k := task_id (tasks s ! k)] = map task_id (tasks s)"
    by (metis list_update_id nth_map)
  with Some show ?thesis
    by (simp add: updateTask_def map_update merge_def)
qed

lemma nextId_updateTask: "nextId (updateTask now i u s) = nextId s"
  by (simp add: updateTask_def split: option.splits)

lemma tasks_toggleTaskComplete_ids:
  "map task_id (tasks (toggleTaskComplete now i s)) = map task_id (tasks s)"
  by (simp add: toggleTaskComplete_def tasks_updateTask_ids split: option.splits)

lemma nextId_toggleTaskComplete: "nextId (toggleTaskComplete now i s) = nextId s"
  by (simp add: toggleTaskComplete_def nextId_updateTask split: option.splits)

lemma subseq_deleteTask: "subseq (tasks (deleteTask i s)) (tasks s)"
  by (simp add: deleteTask_def subseq_splice1 split: option.splits)

lemma nextId_deleteTask: "nextId (deleteTask i s) = nextId s"
  by (simp add: deleteTask_def split: option.splits)

lemma subseq_clearCompletedTasks: "subseq (tasks (clearCompletedTasks s)) (tasks s)"
  by (simp add: clearCompletedTasks_def)

lemma nextId_clearCompletedTasks: "nextId (clearCompletedTasks s) = nextId s"
  by (simp add: clearCompletedTasks_def)

lemma new_ids_addTask:
  "map task_id (drop (length (tasks s)) (tasks (addTask now1 now2 t d s)))
     = (if trim t = [] then [] else [nextId s])"
  by (simp add: addTask_def Let_def)

lemma nextId_addTask:
  "nextId (addTask now1 now2 t d s) = (if trim t = [] then nextId s else nextId s + 1)"
  by (simp add: addTask_def Let_def)

lemma nextId_exec_mono: "c \<noteq> ClearAllTasks \<Longrightarrow> nextId s \<le> nextId (exec c s)"
  by (cases c)
     (simp_all add: nextId_addTask nextId_updateTask nextId_deleteTask
        nextId_toggleTaskComplete nextId_clearCompletedTasks)

subsection \<open>The id invariant\<close>

lemma ids_ordered_same_ids:
  assumes "ids_ordered s" "map task_id (tasks s') = map task_id (tasks s)" "nextId s' = nextId s"
  shows "ids_ordered s'"
proof -
  have "list_all (\<lambda>task. task_id task < nextId s) (tasks s)
          \<longleftrightarrow> list_all (\<lambda>n. n < nextId s) (map task_id (tasks s))"
       "list_all (\<lambda>task. task_id task < nextId s) (tasks s')
          \<longleftrightarrow> list_all (\<lambda>n. n < nextId s) (map task_id (tasks s'))"
    by (simp_all add: list_all_iff)
  with assms show ?thesis by (simp add: ids_ordered_def)
qed

lemma ids_ordered_subseq:
  assumes "ids_ordered s" "subseq (tasks s') (tasks s)" "nextId s' = nextId s"
  shows "ids_ordered s'"
  using assms sorted_wrt_subseq[OF subseq_map[of "tasks s'" "tasks s" task_id]]
  by (auto simp: ids_ordered_def intro: list_all_subseq)

lemma ids_ordered_addTask: "ids_ordered s \<Longrightarrow> ids_ordered (addTask now1 now2 t d s)"
  by (auto simp: ids_ordered_def addTask_def Let_def sorted_wrt_append list_all_iff)

lemma ids_ordered_exec: "ids_ordered s \<Longrightarrow> ids_ordered (exec c s)"
proof (cases c)
  case (AddTask n1 n2 t d)
  assume "ids_ordered s"
  with AddTask show ?thesis by (simp add: ids_ordered_addTask)
next
  case (UpdateTask now i u)
  assume "ids_ordered s"
  with UpdateTask show ?thesis
    by (simp add: ids_ordered_same_ids[OF _ tasks_updateTask_ids nextId_updateTask])
next
  case (DeleteTask i)
  assume "ids_ordered s"
  with DeleteTask show ?thesis
    by (simp add: ids_ordered_subseq[OF _ subseq_deleteTask nextId_deleteTask])
next
  case (ToggleTaskComplete now i)
  assume "ids_ordered s"
  with ToggleTaskComplete show ?thesis
    by (simp add: ids_ordered_same_ids[OF _ tasks_toggleTaskComplete_ids nextId_toggleTaskComplete])
next
  case ClearCompletedTasks
  assume "ids_ordered s"
  with ClearCompletedTasks show ?thesis
    by (simp add: ids_ordered_subseq[OF _ subseq_clearCompletedTasks nextId_clearCompletedTasks])
next
  case ClearAllTasks
  then show ?thesis by (simp add: ids_ordered_def clearAllTasks_def)
qed

lemma ids_ordered_run: "ids_ordered s \<Longrightarrow> ids_ordered (run s cs)"
  by (induction cs arbitrary: s) (simp_all add: ids_ordered_exec)

lemma ids_ordered_initial: "ids_ordered initial"
  by (simp add: ids_ordered_def initial_def)

lemma reachable_findIndex:
  assumes "k < length (tasks (run initial cs))"
  shows "findIndex (\<lambda>task. task_id task = task_id (tasks (run initial cs) ! k))
           (tasks (run initial cs)) = Some k"
proof -
  have "ids_ordered (run initial cs)"
    by (rule ids_ordered_run) (rule ids_ordered_initial)
  then have "distinct (map task_id (tasks (run initial cs)))"
    by (simp add: ids_ordered_def strict_sorted_iff)
  then show ?thesis using assms by (rule findIndex_distinct)
qed

subsection \<open>Assigned ids\<close>

lemma assigned_ids_step:
  "set (assigned_ids s [c]) \<subseteq> {nextId s} \<and> length (assigned_ids s [c]) \<le> 1
   \<and> (\<forall>i\<in>set (assigned_ids s [c]). i < nextId (exec c s))"
  by (cases c) (simp_all add: new_ids_addTask nextId_addTask)

lemma assigned_ids_Cons:
  "assigned_ids s (c # cs) = assigned_ids s [c] @ assigned_ids (exec c s) cs"
  by (cases c) simp_all

lemma assigned_ids_bounds:
  "ClearAllTasks \<notin> set cs \<Longrightarrow>
     sorted_wrt (<) (assigned_ids s cs)
     \<and> (\<forall>i\<in>set (assigned_ids s cs). nextId s \<le> i \<and> i < nextId (run s cs))
     \<and> nextId s \<le> nextId (run s cs)"
proof (induction cs arbitrary: s)
  case Nil
  then show ?case by simp
next
  case (Cons c cs)
  then have c: "c \<noteq> ClearAllTasks" and cs: "ClearAllTasks \<notin> set cs" by auto
  note IH = Cons.IH[OF cs, of "exec c s"]
  note step = assigned_ids_step[of s c]
  have mono: "nextId s \<le> nextId (exec c s)" using c by (rule nextId_exec_mono)
  have one: "sorted_wrt (<) (assigned_ids s [c])"
  proof (cases "assigned_ids s [c]")
    case Nil
    then show ?thesis by simp
  next
    case (Cons a as)
    with step have "as = []" by simp
    with Cons show ?thesis by simp
  qed
  have cross: "\<forall>x\<in>set (assigned_ids s [c]). \<forall>y\<in>set (assigned_ids (exec c s) cs). x < y"
    using step IH by fastforce
  have bounds: "\<forall>i\<in>set (assigned_ids s [c]). nextId s \<le> i \<and> i < nextId (run s (c # cs))"
    using step IH by fastforce
  have bounds': "\<forall>i\<in>set (assigned_ids (exec c s) cs). nextId s \<le> i \<and> i < nextId (run s (c # cs))"
    using mono IH by fastforce
  have "sorted_wrt (<) (assigned_ids s (c # cs))"
    unfolding assigned_ids_Cons[of s c cs] sorted_wrt_append using one cross IH by blast
  moreover have "\<forall>i\<in>set (assigned_ids s (c # cs)). nextId s \<le> i \<and> i < nextId (run s (c # cs))"
    by (subst assigned_ids_Cons) (use bounds bounds' in auto)
  moreover have "nextId s \<le> nextId (run s (c # cs))"
    using mono IH by simp
  ultimately show ?case by blast
qed

subsection \<open>The timestamp invariant\<close>

lemma times_ok_mono: "times_ok lo s \<Longrightarrow> lo \<le> hi \<Longrightarrow> times_ok hi s"
  by (auto simp: times_ok_def list_all_iff)

lemma times_ok_subseq: "times_ok hi s \<Longrightarrow> subseq (tasks s') (tasks s) \<Longrightarrow> times_ok hi s'"
  unfolding times_ok_def by (rule list_all_subseq)

lemma times_ok_addTask:
  "times_ok lo s \<Longrightarrow> lo \<le> now1 \<Longrightarrow> now1 \<le> now2 \<Longrightarrow> times_ok now2 (addTask now1 now2 t d s)"
  by (auto simp: times_ok_def addTask_def Let_def list_all_iff)

lemma times_ok_updateTask:
  assumes "times_ok lo s" "lo \<le> now"
  shows "times_ok now (updateTask now i u s)"
proof (cases "findIndex (\<lambda>task. task_id task = i) (tasks s)")
  case None
  with assms show ?thesis by (simp add: updateTask_def times_ok_mono)
next
  case (Some k)
  then have k: "k < length (tasks s)" by (simp add: findIndex_Some)
  then have old: "tasks s ! k \<in> set (tasks s)" by simp
  let ?new = "merge now (tasks s ! k) u"
  let ?ok = "\<lambda>hi task. createdAt task \<le> updatedAt task \<and> updatedAt task \<le> hi"
  from assms(1) have all: "\<forall>task\<in>set (tasks s). ?ok lo task"
    by (simp add: times_ok_def list_all_iff)
  with old have "createdAt (tasks s ! k) \<le> lo" by fastforce
  with assms(2) have new: "?ok now ?new" by (simp add: merge_def)
  from all assms(2) have all': "\<forall>task\<in>set (tasks s). ?ok now task" by fastforce
  have "set ((tasks s)[k := ?new]) \<subseteq> insert ?new (set (tasks s))"
    by (rule set_update_subset_insert)
  with new all' have "\<forall>task\<in>set ((tasks s)[k := ?new]). ?ok now task" by blast
  with Some show ?thesis
    by (simp add: updateTask_def times_ok_def list_all_iff)
qed

lemma times_ok_toggleTaskComplete:
  "times_ok lo s \<Longrightarrow> lo \<le> now \<Longrightarrow> times_ok now (toggleTaskComplete now i s)"
  by (simp add: toggleTaskComplete_def times_ok_updateTask times_ok_mono split: option.splits)

lemma times_ok_exec:
  assumes "times_ok lo s" "sorted (lo # clock_reads c)"
  shows "times_ok (last (lo # clock_reads c)) (exec c s)"
proof (cases c)
  case (AddTask n1 n2 t d)
  with assms show ?thesis by (simp add: times_ok_addTask)
next
  case (UpdateTask now i u)
  with assms show ?thesis by (simp add: times_ok_updateTask)
next
  case (DeleteTask i)
  with assms show ?thesis by (simp add: times_ok_subseq[OF _ subseq_deleteTask])
next
  case (ToggleTaskComplete now i)
  with assms show ?thesis by (simp add: times_ok_toggleTaskComplete)
next
  case ClearCompletedTasks
  with assms show ?thesis by (simp add: times_ok_subseq[OF _ subseq_clearCompletedTasks])
next
  case ClearAllTasks
  then show ?thesis by (simp add: times_ok_def clearAllTasks_def)
qed

lemma times_ok_run:
  "times_ok lo s \<Longrightarrow> sorted (lo # concat (map clock_reads cs))
     \<Longrightarrow> times_ok (last (lo # concat (map clock_reads cs))) (run s cs)"
proof (induction cs arbitrary: lo s)
  case Nil
  then show ?case by simp
next
  case (Cons c cs)
  let ?mid = "last (lo # clock_reads c)"
  from Cons.prems(2) have a: "sorted (lo # clock_reads c)"
    by (simp add: sorted_append)
  from Cons.prems(2) have b: "sorted (?mid # concat (map clock_reads cs))"
    by (auto simp: sorted_append)
  have "times_ok ?mid (exec c s)"
    using Cons.prems(1) a by (rule times_ok_exec)
  then have "times_ok (last (?mid # concat (map clock_reads cs))) (run (exec c s) cs)"
    using b by (rule Cons.IH)
  moreover have "last (?mid # concat (map clock_reads cs))
                   = last (lo # concat (map clock_reads (c # cs)))"
    by simp
  ultimately show ?case by simp
qed

lemma sorted_snoc_bounds:
  fixes rs :: "int list"
  assumes "sorted (rs @ [now])"
  shows "sorted (hd (rs @ [now]) # rs)" and "last (hd (rs @ [now]) # rs) \<le> now"
  using assms by (cases rs; auto simp: sorted_append)+

lemma sorted_snoc_last:
  fixes rs :: "int list"
  shows "sorted rs \<Longrightarrow> sorted (rs @ [last (0 # rs)])"
  by (cases rs rule: rev_cases) (auto simp: sorted_append)

lemma times_ok_reachable:
  assumes "sorted (concat (map clock_reads cs) @ [now])"
  shows "times_ok now (run initial cs)"
proof -
  let ?rs = "concat (map clock_reads cs)"
  let ?lo = "hd (?rs @ [now])"
  have s: "sorted (?lo # ?rs)"
    using assms by (rule sorted_snoc_bounds)
  have "times_ok ?lo initial"
    by (simp add: times_ok_def initial_def)
  then have "times_ok (last (?lo # ?rs)) (run initial cs)"
    using s by (rule times_ok_run)
  moreover have "last (?lo # ?rs) \<le> now"
    using assms by (rule sorted_snoc_bounds)
  ultimately show ?thesis by (rule times_ok_mono)
qed

section \<open>Properties of the store\<close>

subsection \<open>Titles after an update\<close>

text \<open>
  Claim C1. Every task of a reachable collection is claimed to have a title that is trimmed
  and not empty. \<open>addTask\<close> trims the title and refuses a blank one, but \<open>updateTask\<close>
  merges the given title as it is: adding a task titled \<open>A\<close> and then updating its title
  to two spaces leaves a task in the collection whose title is two spaces, which is
  empty after trimming.
\<close>

theorem C1_updateTask_blank_title:
  "tasks (run initial [AddTask 1 2 [65] None,
        UpdateTask 3 1 \<lparr>new_title = Some [32, 32], new_description = None, new_completed = None\<rparr>])
     = [\<lparr>task_id = 1, title = [32, 32], description = [], completed = False,
         createdAt = 1, updatedAt = 3\<rparr>]
   \<and> trim [32, 32] = []"
  by (simp add: initial_def addTask_def updateTask_def merge_def trim_def isWhiteSpace_def)

subsection \<open>Calls on an id that is not in the collection\<close>

text \<open>
  Claim C2. For an id that no task of the collection carries, \<open>updateTask\<close>,
  \<open>deleteTask\<close> and \<open>toggleTaskComplete\<close> return the store state (collection and id
  counter) unchanged. None of the three has a failing branch: each is a total function
  that returns a state. \<open>getTaskById\<close> finds nothing.
\<close>

theorem C2_absent_id_noop:
  assumes "i \<notin> task_id ` set (tasks s)"
  shows "updateTask now i updates s = s \<and> deleteTask i s = s \<and> toggleTaskComplete now i s = s
         \<and> getTaskById i s = None"
proof -
  have fi: "findIndex (\<lambda>task. task_id task = i) (tasks s) = None"
    using assms by (rule findIndex_absent)
  then have f: "find (\<lambda>task. task_id task = i) (tasks s) = None"
    by (simp add: find_None_findIndex)
  show ?thesis
    by (simp add: updateTask_def deleteTask_def toggleTaskComplete_def getTaskById_def fi f)
qed

theorem C2_absent_id_noop_witness:
  "(7::int) \<notin> task_id ` set (tasks (run initial [AddTask 1 2 [65] None]))
   \<and> updateTask 3 7 \<lparr>new_title = Some [66], new_description = None, new_completed = None\<rparr>
        (run initial [AddTask 1 2 [65] None]) = run initial [AddTask 1 2 [65] None]
   \<and> deleteTask 7 (run initial [AddTask 1 2 [65] None]) = run initial [AddTask 1 2 [65] None]
   \<and> toggleTaskComplete 3 7 (run initial [AddTask 1 2 [65] None])
        = run initial [AddTask 1 2 [65] None]"
proof -
  have h: "(7::int) \<notin> task_id ` set (tasks (run initial [AddTask 1 2 [65] None]))"
    by (simp add: initial_def addTask_def trim_def isWhiteSpace_def)
  from C2_absent_id_noop [OF h] h show ?thesis by blast
qed

subsection \<open>Adding a task\<close>

text \<open>
  Claim C3, as stated, asks for \<open>createdAt = updatedAt = now\<close>. The source evaluates
  \<open>new Date()\<close> once for \<open>createdAt\<close> and once more for \<open>updatedAt\<close>, so when the clock
  advances between the two readings (here from 5 to 6) the two fields differ, under a
  monotonic clock.
\<close>

theorem C3_counterexample:
  "monotonic_clock [AddTask 5 6 [65] None]
   \<and> createdAt (last (tasks (addTask 5 6 [65] None initial)))
       \<noteq> updatedAt (last (tasks (addTask 5 6 [65] None initial)))"
  by (simp add: monotonic_clock_def initial_def addTask_def trim_def isWhiteSpace_def)

text \<open>
  Claim C3, amended. For every call \<open>addTask(title, description)\<close>: if the title is empty
  after trimming, the store state is unchanged; otherwise exactly one new task is
  appended at the end of the collection, carrying the next allocated id (the counter
  advances by one), the trimmed title, \<open>completed = false\<close>, \<open>createdAt\<close> equal to the
  first clock reading of the call and \<open>updatedAt\<close> equal to the second one, so that
  \<open>createdAt \<le> updatedAt\<close> under a monotonic clock.
\<close>

theorem C3_addTask:
  "(trim title_arg = [] \<longrightarrow> addTask now1 now2 title_arg d s = s)
   \<and> (trim title_arg \<noteq> [] \<longrightarrow>
        length (tasks (addTask now1 now2 title_arg d s)) = Suc (length (tasks s))
      \<and> butlast (tasks (addTask now1 now2 title_arg d s)) = tasks s
      \<and> task_id (last (tasks (addTask now1 now2 title_arg d s))) = nextId s
      \<and> nextId (addTask now1 now2 title_arg d s) = nextId s + 1
      \<and> title (last (tasks (addTask now1 now2 title_arg d s))) = trim title_arg
      \<and> \<not> completed (last (tasks (addTask now1 now2 title_arg d s)))
      \<and> createdAt (last (tasks (addTask now1 now2 title_arg d s))) = now1
      \<and> updatedAt (last (tasks (addTask now1 now2 title_arg d s))) = now2
      \<and> (monotonic_clock [AddTask now1 now2 title_arg d] \<longrightarrow>
            createdAt (last (tasks (addTask now1 now2 title_arg d s)))
              \<le> updatedAt (last (tasks (addTask now1 now2 title_arg d s)))))"
  by (simp add: addTask_def monotonic_clock_def)

theorem C3_addTask_witness:
  "trim [32, 9] = [] \<and> addTask 5 6 [32, 9] None initial = initial
   \<and> trim [32, 65] \<noteq> [] \<and> monotonic_clock [AddTask 5 6 [32, 65] None]
   \<and> tasks (addTask 5 6 [32, 65] None initial)
       = [\<lparr>task_id = 1, title = [65], description = [], completed = False,
           createdAt = 5, updatedAt = 6\<rparr>]
   \<and> nextId (addTask 5 6 [32, 65] None initial) = 2"
proof -
  have h1: "trim [32, 9] = []" and h2: "trim [32, 65] \<noteq> []" and t: "trim [32, 65] = [65]"
    by (simp_all add: trim_def isWhiteSpace_def)
  have m: "monotonic_clock [AddTask 5 6 [32, 65] None]"
    by (simp add: monotonic_clock_def)
  have e: "tasks (addTask 5 6 [32, 65] None initial)
       = [\<lparr>task_id = 1, title = [65], description = [], completed = False,
           createdAt = 5, updatedAt = 6\<rparr>]"
    by (simp add: addTask_def initial_def t) (simp add: trim_def)
  from C3_addTask [of "[32, 9]" 5 6 None initial] C3_addTask [of "[32, 65]" 5 6 None initial]
  show ?thesis using h1 h2 m e by simp
qed

subsection \<open>Updating a task\<close>

text \<open>
  Claim C4, as stated, asks that \<open>updatedAt\<close> strictly increases under a monotonic
  clock. A monotonic clock never goes back, but two readings can be equal: \<open>Date\<close>
  counts milliseconds. A task added at reading 5 and updated at reading 5 keeps
  \<open>updatedAt = 5\<close>.
\<close>

theorem C4_counterexample:
  "monotonic_clock [AddTask 5 5 [65] None,
       UpdateTask 5 1 \<lparr>new_title = Some [88], new_description = None, new_completed = None\<rparr>]
   \<and> task_id (hd (tasks (run initial [AddTask 5 5 [65] None]))) = 1
   \<and> \<not> updatedAt (hd (tasks (run initial [AddTask 5 5 [65] None])))
        < updatedAt (hd (tasks (updateTask 5 1
              \<lparr>new_title = Some [88], new_description = None, new_completed = None\<rparr>
              (run initial [AddTask 5 5 [65] None]))))"
  by (simp add: monotonic_clock_def initial_def addTask_def updateTask_def merge_def
        trim_def isWhiteSpace_def)

text \<open>
  Claim C4, amended. In a state reached from the fresh store under a monotonic clock, for
  every task whose id is in the collection, after \<open>updateTask(id, updates)\<close> with
  \<open>updates.title = X\<close> the task is at the same position, its id and \<open>createdAt\<close> are
  unchanged, its title is \<open>X\<close>, the fields not named in \<open>updates\<close> keep their values,
  and \<open>updatedAt\<close> is the clock reading of the call: it does not decrease, and it
  strictly increases exactly when the clock has advanced since the task's last mutation.
  All other tasks, the length of the collection and the counter are unchanged.
\<close>

theorem C4_updateTask:
  assumes "monotonic_clock (cs @ [UpdateTask now i u])"
      and "s = run initial cs"
      and "k < length (tasks s)"
      and "task_id (tasks s ! k) = i"
      and "new_title u = Some x"
      and "s' = updateTask now i u s"
  shows "length (tasks s') = length (tasks s)
       \<and> nextId s' = nextId s
       \<and> (\<forall>j<length (tasks s). j \<noteq> k \<longrightarrow> tasks s' ! j = tasks s ! j)
       \<and> task_id (tasks s' ! k) = i
       \<and> createdAt (tasks s' ! k) = createdAt (tasks s ! k)
       \<and> title (tasks s' ! k) = x
       \<and> (new_description u = None \<longrightarrow> description (tasks s' ! k) = description (tasks s ! k))
       \<and> (new_completed u = None \<longrightarrow> completed (tasks s' ! k) = completed (tasks s ! k))
       \<and> updatedAt (tasks s' ! k) = now
       \<and> updatedAt (tasks s ! k) \<le> updatedAt (tasks s' ! k)
       \<and> (updatedAt (tasks s ! k) < updatedAt (tasks s' ! k) \<longleftrightarrow> updatedAt (tasks s ! k) < now)"
proof -
  have fi: "findIndex (\<lambda>task. task_id task = i) (tasks s) = Some k"
    using reachable_findIndex[of k cs] assms(2,3,4) by simp
  have s': "tasks s' = (tasks s)[k := merge now (tasks s ! k) u]" "nextId s' = nextId s"
    using fi assms(6) by (simp_all add: updateTask_def)
  have new: "tasks s' ! k = merge now (tasks s ! k) u"
    using assms(3) by (simp add: s')
  have "sorted (concat (map clock_reads cs) @ [now])"
    using assms(1) by (simp add: monotonic_clock_def)
  then have "times_ok now s"
    unfolding assms(2) by (rule times_ok_reachable)
  then have le: "updatedAt (tasks s ! k) \<le> now"
    using assms(3) by (simp add: times_ok_def list_all_length)
  have len: "length (tasks s') = length (tasks s)"
    by (simp add: s')
  have others: "\<forall>j<length (tasks s). j \<noteq> k \<longrightarrow> tasks s' ! j = tasks s ! j"
    by (simp add: s')
  have fields: "task_id (tasks s' ! k) = i
       \<and> createdAt (tasks s' ! k) = createdAt (tasks s ! k)
       \<and> title (tasks s' ! k) = x
       \<and> (new_description u = None \<longrightarrow> description (tasks s' ! k) = description (tasks s ! k))
       \<and> (new_completed u = None \<longrightarrow> completed (tasks s' ! k) = completed (tasks s ! k))
       \<and> updatedAt (tasks s' ! k) = now"
    unfolding new using assms(4,5) by (simp add: merge_def)
  show ?thesis
    using len s'(2) others fields le by simp
qed

theorem C4_updateTask_witness:
  "monotonic_clock ([AddTask 5 5 [65] (Some [66])] @
       [UpdateTask 7 1 \<lparr>new_title = Some [88], new_description = None, new_completed = None\<rparr>])
   \<and> (0::nat) < length (tasks (run initial [AddTask 5 5 [65] (Some [66])]))
   \<and> task_id (tasks (run initial [AddTask 5 5 [65] (Some [66])]) ! 0) = 1
   \<and> tasks (updateTask 7 1
         \<lparr>new_title = Some [88], new_description = None, new_completed = None\<rparr>
         (run initial [AddTask 5 5 [65] (Some [66])])) ! 0
       = \<lparr>task_id = 1, title = [88], description = [66], completed = False,
          createdAt = 5, updatedAt = 7\<rparr>"
proof -
  let ?u = "\<lparr>new_title = Some [88], new_description = None, new_completed = None\<rparr>"
  let ?cs = "[AddTask 5 5 [65] (Some [66])]"
  have t: "trim [65] = [65]" "trim [66] = [66]"
    by (simp_all add: trim_def isWhiteSpace_def)
  have s: "run initial ?cs = \<lparr>tasks = [\<lparr>task_id = 1, title = [65], description = [66],
             completed = False, createdAt = 5, updatedAt = 5\<rparr>], nextId = 2\<rparr>"
    by (simp add: initial_def addTask_def t)
  have m: "monotonic_clock (?cs @ [UpdateTask 7 1 ?u])"
    by (simp add: monotonic_clock_def)
  have k: "(0::nat) < length (tasks (run initial ?cs))"
    by (subst s) simp
  have i: "task_id (tasks (run initial ?cs) ! 0) = 1"
    by (subst s) simp
  have r: "tasks (updateTask 7 1 ?u (run initial ?cs)) ! 0
       = \<lparr>task_id = 1, title = [88], description = [66], completed = False,
          createdAt = 5, updatedAt = 7\<rparr>"
    by (subst s) (simp add: updateTask_def merge_def)
  from C4_updateTask [OF m refl k i _ refl, of "[88]"] m k i r
  show ?thesis by simp
qed

subsection \<open>Ids\<close>

text \<open>
  Claim C5. Over any sequence of calls without \<open>clearAllTasks\<close>, from any state, the ids
  assigned by the calls are strictly increasing in the order of the calls, each lies
  below the counter reached at the end (so the next id is greater than all of them),
  and the counter never falls below its starting value: only \<open>clearAllTasks\<close> sets it
  back, to the value of the fresh store. In every state reached from the fresh store
  the ids increase strictly along the collection and lie below the counter.
\<close>

theorem C5_monotonic_ids:
  "(ClearAllTasks \<notin> set cs \<longrightarrow>
       sorted_wrt (<) (assigned_ids s cs)
     \<and> (\<forall>i\<in>set (assigned_ids s cs). nextId s \<le> i \<and> i < nextId (run s cs))
     \<and> nextId s \<le> nextId (run s cs))
   \<and> nextId (exec ClearAllTasks s) = nextId initial
   \<and> sorted_wrt (<) (map task_id (tasks (run initial cs)))
   \<and> list_all (\<lambda>task. task_id task < nextId (run initial cs)) (tasks (run initial cs))"
proof -
  have "ids_ordered (run initial cs)"
    by (rule ids_ordered_run) (rule ids_ordered_initial)
  then show ?thesis
    using assigned_ids_bounds[of cs s]
    by (simp add: ids_ordered_def clearAllTasks_def initial_def)
qed

theorem C5_monotonic_ids_witness:
  "ClearAllTasks \<notin> set [AddTask 1 1 [65] None, AddTask 2 2 [32] None, DeleteTask 1,
                          AddTask 3 3 [66] None]
   \<and> assigned_ids initial [AddTask 1 1 [65] None, AddTask 2 2 [32] None, DeleteTask 1,
                            AddTask 3 3 [66] None] = [1, 2]
   \<and> sorted_wrt (<) (assigned_ids initial [AddTask 1 1 [65] None, AddTask 2 2 [32] None,
                            DeleteTask 1, AddTask 3 3 [66] None])
   \<and> nextId (run initial [AddTask 1 1 [65] None, AddTask 2 2 [32] None, DeleteTask 1,
                            AddTask 3 3 [66] None]) = 3"
proof -
  have t: "trim [65] = [65]" "trim [66] = [66]" "trim [32] = []" "trim [] = []"
    by (simp_all add: trim_def isWhiteSpace_def)
  have a: "assigned_ids initial [AddTask 1 1 [65] None, AddTask 2 2 [32] None, DeleteTask 1,
                            AddTask 3 3 [66] None] = [1, 2]"
    by (simp add: initial_def addTask_def deleteTask_def splice1_def t)
  have n: "nextId (run initial [AddTask 1 1 [65] None, AddTask 2 2 [32] None, DeleteTask 1,
                            AddTask 3 3 [66] None]) = 3"
    by (simp add: initial_def addTask_def deleteTask_def splice1_def t)
  from C5_monotonic_ids [of "[AddTask 1 1 [65] None, AddTask 2 2 [32] None, DeleteTask 1,
                            AddTask 3 3 [66] None]" initial]
  show ?thesis using a n by simp
qed

text \<open>
  Claim C6. In every state reached from the fresh store by any sequence of calls (in
  particular by any sequence of \<open>addTask\<close> calls), the ids of the tasks in the
  collection are pairwise distinct.
\<close>

theorem C6_ids_distinct:
  "distinct (map task_id (tasks (run initial cs)))"
proof -
  have "ids_ordered (run initial cs)"
    by (rule ids_ordered_run) (rule ids_ordered_initial)
  then show ?thesis
    by (simp add: ids_ordered_def strict_sorted_iff)
qed

subsection \<open>Timestamps\<close>

text \<open>
  Claim C7. Under a monotonic clock, in every state reached from the fresh store, every
  task of the collection has \<open>createdAt \<le> updatedAt\<close>: right after \<open>addTask\<close> created
  it and after any \<open>updateTask\<close> or \<open>toggleTaskComplete\<close>.
\<close>

theorem C7_updatedAt_ge_createdAt:
  "monotonic_clock cs \<Longrightarrow> \<forall>task\<in>set (tasks (run initial cs)). createdAt task \<le> updatedAt task"
proof -
  assume m: "monotonic_clock cs"
  let ?rs = "concat (map clock_reads cs)"
  from m have "sorted ?rs" by (simp add: monotonic_clock_def)
  then have "sorted (?rs @ [last (0 # ?rs)])"
    by (rule sorted_snoc_last)
  then have "times_ok (last (0 # ?rs)) (run initial cs)"
    by (rule times_ok_reachable)
  then show ?thesis
    by (simp add: times_ok_def list_all_iff)
qed

theorem C7_updatedAt_ge_createdAt_witness:
  "monotonic_clock [AddTask 1 2 [65] None, ToggleTaskComplete 3 1,
       UpdateTask 3 1 \<lparr>new_title = Some [88], new_description = None, new_completed = None\<rparr>,
       AddTask 4 4 [66] None]
   \<and> length (tasks (run initial [AddTask 1 2 [65] None, ToggleTaskComplete 3 1,
       UpdateTask 3 1 \<lparr>new_title = Some [88], new_description = None, new_completed = None\<rparr>,
       AddTask 4 4 [66] None])) = 2
   \<and> createdAt (tasks (run initial [AddTask 1 2 [65] None, ToggleTaskComplete 3 1,
       UpdateTask 3 1 \<lparr>new_title = Some [88], new_description = None, new_completed = None\<rparr>,
       AddTask 4 4 [66] None]) ! 0)
     \<le> updatedAt (tasks (run initial [AddTask 1 2 [65] None, ToggleTaskComplete 3 1,
       UpdateTask 3 1 \<lparr>new_title = Some [88], new_description = None, new_completed = None\<rparr>,
       AddTask 4 4 [66] None]) ! 0)
   \<and> createdAt (tasks (run initial [AddTask 1 2 [65] None, ToggleTaskComplete 3 1,
       UpdateTask 3 1 \<lparr>new_title = Some [88], new_description = None, new_completed = None\<rparr>,
       AddTask 4 4 [66] None]) ! 1)
     \<le> updatedAt (tasks (run initial [AddTask 1 2 [65] None, ToggleTaskComplete 3 1,
       UpdateTask 3 1 \<lparr>new_title = Some [88], new_description = None, new_completed = None\<rparr>,
       AddTask 4 4 [66] None]) ! 1)"
proof -
  let ?cs = "[AddTask 1 2 [65] None, ToggleTaskComplete 3 1,
       UpdateTask 3 1 \<lparr>new_title = Some [88], new_description = None, new_completed = None\<rparr>,
       AddTask 4 4 [66] None]"
  have t: "trim [65] = [65]" "trim [66] = [66]" "trim [] = []"
    by (simp_all add: trim_def isWhiteSpace_def)
  have m: "monotonic_clock ?cs"
    by (simp add: monotonic_clock_def)
  have l: "length (tasks (run initial ?cs)) = 2"
    by (simp add: initial_def addTask_def toggleTaskComplete_def updateTask_def merge_def t)
  then have "tasks (run initial ?cs) ! 0 \<in> set (tasks (run initial ?cs))"
    and "tasks (run initial ?cs) ! 1 \<in> set (tasks (run initial ?cs))"
    by (simp_all only: nth_mem)
  with C7_updatedAt_ge_createdAt [OF m] m l show ?thesis by blast
qed

subsection \<open>Insertion order\<close>

text \<open>
  Claim C8. The collection keeps insertion order. \<open>addTask\<close> leaves the old collection as
  a prefix and adds at most one record after it; \<open>deleteTask\<close> removes exactly the first
  record carrying the id and keeps the records before and after it in place;
  \<open>clearCompletedTasks\<close> keeps exactly the pending tasks, as a subsequence of the
  collection; \<open>updateTask\<close> and \<open>toggleTaskComplete\<close> leave every id at its position;
  \<open>clearAllTasks\<close> leaves nothing. No operation reorders the collection.
\<close>

theorem C8_insertion_order:
  "prefix (tasks s) (tasks (addTask now1 now2 t d s))
   \<and> length (tasks (addTask now1 now2 t d s)) \<le> Suc (length (tasks s))
   \<and> subseq (tasks (deleteTask i s)) (tasks s)
   \<and> (i \<in> task_id ` set (tasks s) \<longrightarrow>
        (\<exists>ys x zs. tasks s = ys @ x # zs \<and> task_id x = i
            \<and> list_all (\<lambda>y. task_id y \<noteq> i) ys \<and> tasks (deleteTask i s) = ys @ zs))
   \<and> subseq (tasks (clearCompletedTasks s)) (tasks s)
   \<and> tasks (clearCompletedTasks s) = pendingTasks s
   \<and> set (tasks (clearCompletedTasks s)) = set (tasks s) - set (completedTasks s)
   \<and> map task_id (tasks (updateTask now i u s)) = map task_id (tasks s)
   \<and> map task_id (tasks (toggleTaskComplete now i s)) = map task_id (tasks s)
   \<and> tasks (clearAllTasks s) = []"
proof -
  have add: "prefix (tasks s) (tasks (addTask now1 now2 t d s))
      \<and> length (tasks (addTask now1 now2 t d s)) \<le> Suc (length (tasks s))"
    by (simp add: addTask_def Let_def)
  have del: "\<exists>ys x zs. tasks s = ys @ x # zs \<and> task_id x = i
            \<and> list_all (\<lambda>y. task_id y \<noteq> i) ys \<and> tasks (deleteTask i s) = ys @ zs"
    if "i \<in> task_id ` set (tasks s)"
  proof -
    from that have "findIndex (\<lambda>task. task_id task = i) (tasks s) \<noteq> None"
      by (auto simp: findIndex_None_iff)
    then obtain k where k: "findIndex (\<lambda>task. task_id task = i) (tasks s) = Some k"
      by blast
    from findIndex_split[OF k] k show ?thesis
      by (simp add: deleteTask_def)
  qed
  have clr: "tasks (clearCompletedTasks s) = pendingTasks s
      \<and> set (tasks (clearCompletedTasks s)) = set (tasks s) - set (completedTasks s)"
    by (auto simp: clearCompletedTasks_def pendingTasks_def completedTasks_def)
  have rest: "tasks (clearAllTasks s) = []"
    by (simp add: clearAllTasks_def)
  show ?thesis
    using add del clr rest subseq_deleteTask[of i s] subseq_clearCompletedTasks[of s]
      tasks_updateTask_ids[of now i u s] tasks_toggleTaskComplete_ids[of now i s]
    by blast
qed

theorem C8_insertion_order_witness:
  "(2::int) \<in> task_id ` set (tasks (run initial
        [AddTask 1 1 [65] None, AddTask 2 2 [66] None, AddTask 3 3 [67] None]))
   \<and> map task_id (tasks (run initial
        [AddTask 1 1 [65] None, AddTask 2 2 [66] None, AddTask 3 3 [67] None])) = [1, 2, 3]
   \<and> map task_id (tasks (deleteTask 2 (run initial
        [AddTask 1 1 [65] None, AddTask 2 2 [66] None, AddTask 3 3 [67] None]))) = [1, 3]
   \<and> subseq (tasks (deleteTask 2 (run initial
        [AddTask 1 1 [65] None, AddTask 2 2 [66] None, AddTask 3 3 [67] None])))
        (tasks (run initial
        [AddTask 1 1 [65] None, AddTask 2 2 [66] None, AddTask 3 3 [67] None]))"
proof -
  let ?cs = "[AddTask 1 1 [65] None, AddTask 2 2 [66] None, AddTask 3 3 [67] None]"
  have t: "trim [65] = [65]" "trim [66] = [66]" "trim [67] = [67]" "trim [] = []"
    by (simp_all add: trim_def isWhiteSpace_def)
  have s: "run initial ?cs =
     \<lparr>tasks = [\<lparr>task_id = 1, title = [65], description = [], completed = False,
                 createdAt = 1, updatedAt = 1\<rparr>,
               \<lparr>task_id = 2, title = [66], description = [], completed = False,
                 createdAt = 2, updatedAt = 2\<rparr>,
               \<lparr>task_id = 3, title = [67], description = [], completed = False,
                 createdAt = 3, updatedAt = 3\<rparr>], nextId = 4\<rparr>"
    by (simp add: initial_def addTask_def t)
  have h: "(2::int) \<in> task_id ` set (tasks (run initial ?cs))"
    by (subst s) simp
  have ids: "map task_id (tasks (run initial ?cs)) = [1, 2, 3]"
    by (subst s) simp
  have del: "map task_id (tasks (deleteTask 2 (run initial ?cs))) = [1, 3]"
    by (subst s) (simp add: deleteTask_def splice1_def)
  from C8_insertion_order [of "run initial ?cs" 0 0 "[]" None 2 0
        "\<lparr>new_title = None, new_description = None, new_completed = None\<rparr>"] h ids del
  show ?thesis by blast
qed

subsection \<open>The derived views and the list filter\<close>

text \<open>
  Claim C9. In any state, \<open>pendingTasks\<close> and \<open>completedTasks\<close> have no task in common,
  each is a subsequence of the collection (so each is in collection order), together
  they hold exactly the tasks of the collection, and the filter mode \<open>all\<close> returns
  the collection as it is. The other two modes of the filter are the two views.
\<close>

theorem C9_filter_partition:
  "set (pendingTasks s) \<inter> set (completedTasks s) = {}
   \<and> subseq (pendingTasks s) (tasks s)
   \<and> subseq (completedTasks s) (tasks s)
   \<and> set (pendingTasks s) \<union> set (completedTasks s) = set (tasks s)
   \<and> length (pendingTasks s) + length (completedTasks s) = length (tasks s)
   \<and> filteredTasks All (tasks s) = tasks s
   \<and> filteredTasks Pending (tasks s) = pendingTasks s
   \<and> filteredTasks Completed (tasks s) = completedTasks s"
proof -
  have "length (filter (\<lambda>t. \<not> completed t) xs) + length (filter completed xs) = length xs"
    for xs :: "Task list"
    by (induction xs) auto
  then show ?thesis
    by (auto simp: pendingTasks_def completedTasks_def filteredTasks_def)
qed

subsection \<open>The stored description\<close>

text \<open>
  Claim C10. For every call \<open>addTask(title, description)\<close> with a title that is not
  blank, the description of the stored task is \<open>description.trim()\<close>: the argument with
  a run of whitespace removed at each end, with no whitespace left at either end. It is
  the empty string exactly when the argument consists of whitespace only, and also when
  the argument is omitted.
\<close>

theorem C10_addTask_trims_description:
  assumes "trim title_arg \<noteq> []"
  shows "description (last (tasks (addTask now1 now2 title_arg (Some d) s))) = trim d
       \<and> (\<exists>pre suf. d = pre @ trim d @ suf \<and> list_all isWhiteSpace pre \<and> list_all isWhiteSpace suf)
       \<and> takeWhile isWhiteSpace (trim d) = []
       \<and> takeWhile isWhiteSpace (rev (trim d)) = []
       \<and> (description (last (tasks (addTask now1 now2 title_arg (Some d) s))) = []
            \<longleftrightarrow> list_all isWhiteSpace d)
       \<and> description (last (tasks (addTask now1 now2 title_arg None s))) = []"
proof -
  have a: "description (last (tasks (addTask now1 now2 title_arg (Some d) s))) = trim d"
    using assms by (simp add: addTask_def)
  have e: "trim [] = []"
    by (simp add: trim_def)
  have b: "description (last (tasks (addTask now1 now2 title_arg None s))) = []"
    using assms by (simp add: addTask_def e)
  show ?thesis
    using trim_decomp[of d] by (simp add: a b trim_no_leading trim_no_trailing trim_Nil_iff)
qed

theorem C10_addTask_trims_description_witness:
  "trim [65] \<noteq> []
   \<and> description (last (tasks (addTask 1 2 [65] (Some [32, 66, 9]) initial))) = [66]
   \<and> description (last (tasks (addTask 1 2 [65] (Some [32, 9]) initial))) = []"
proof -
  have h: "trim [65] \<noteq> []"
    by (simp add: trim_def isWhiteSpace_def)
  have t1: "trim [32, 66, 9] = [66]" and t2: "trim [32, 9] = []"
    by (simp_all add: trim_def isWhiteSpace_def)
  from C10_addTask_trims_description [OF h, of 1 2 "[32, 66, 9]" initial]
       C10_addTask_trims_description [OF h, of 1 2 "[32, 9]" initial]
  show ?thesis using h by (simp add: t1 t2)
qed

end
